theory Spec2Isabelle
  imports Complex_Main "HOL-Library.Multiset" "HOL-Library.Char_ord" "HOL-Library.List_Lexorder"
begin

section \<open>Calendar dates and JavaScript time values\<close>

text \<open>
  The store keeps \<open>completion_date\<close> as a date-only value (\<open>DATE NOT NULL\<close>), which the
  service sees as a string \<open>YYYY-MM-DD\<close>. A calendar date is modelled by its day number
  (days since 1970-01-01), an instant by its JavaScript time value (milliseconds since the
  epoch, UTC). \<open>new Date('YYYY-MM-DD')\<close> is midnight UTC of that day, and
  \<open>toISOString().split('T')[0]\<close> is the UTC calendar day of an instant.

  One reading \<open>now\<close> of the clock serves one call of a service function.
\<close>

type_synonym date = int
type_synonym instant = int

definition MS_PER_DAY :: int where
  "MS_PER_DAY = 1000 * 60 * 60 * 24"

definition newDate :: "date \<Rightarrow> instant" where
  "newDate dateStr = dateStr * MS_PER_DAY"

definition toISODate :: "instant \<Rightarrow> date" where
  "toISODate t = t div MS_PER_DAY"

text \<open>
  \<open>TimeClip\<close> of ECMAScript: a time value beyond \<open>8.64e15\<close> milliseconds is \<open>NaN\<close>, the
  time value of an Invalid Date (\<open>None\<close>), on which \<open>toISOString()\<close> throws a \<open>RangeError\<close>.
  The clock itself is a valid instant.
\<close>

definition TimeClip :: "int \<Rightarrow> instant option" where
  "TimeClip t = (if \<bar>t\<bar> \<le> 8640000000000000 then Some t else None)"

section \<open>The time zone of the process\<close>

text \<open>
  \<open>getDate\<close> and \<open>setDate\<close> work in the local time of the process, which the repository
  does not fix. A time zone is given by its offset from UTC in milliseconds, read at an
  instant (\<open>LocalTZA(t, true)\<close> of ECMAScript) and read at a local time value
  (\<open>LocalTZA(t, false)\<close>, which takes a repeated or skipped local time with the offset
  before the transition). The zones modelled are those whose offsets differ by less than a
  day among themselves: UTC, every zone of fixed offset and every zone with daylight
  saving time; a zone that moves across the date line by a whole day is not among them.
\<close>

typedef zone = "{p :: (int \<Rightarrow> int) \<times> (int \<Rightarrow> int). \<forall>t t'. \<bar>fst p t - snd p t'\<bar> < MS_PER_DAY}"
  by (rule exI [of _ "(\<lambda>t. 0, \<lambda>t. 0)"]) (simp add: MS_PER_DAY_def)

definition utcOffset :: "zone \<Rightarrow> instant \<Rightarrow> int" where
  "utcOffset z = fst (Rep_zone z)"

definition localOffset :: "zone \<Rightarrow> int \<Rightarrow> int" where
  "localOffset z = snd (Rep_zone z)"

text \<open>
  \<open>d.setDate(d.getDate() - n)\<close> on the Date with time value \<open>t\<close>: the local time of \<open>t\<close>,
  moved back by \<open>n\<close> calendar days at the same time of day, read as a local time again.
\<close>

definition setDateBack :: "zone \<Rightarrow> instant \<Rightarrow> int \<Rightarrow> instant" where
  "setDateBack z t n =
     (let localTime = t + utcOffset z t;
          moved = localTime - n * MS_PER_DAY
      in moved - localOffset z moved)"

text \<open>The zone has one offset at all times.\<close>

definition fixed_offset :: "zone \<Rightarrow> bool" where
  "fixed_offset z \<longleftrightarrow> (\<exists>c. \<forall>t. utcOffset z t = c \<and> localOffset z t = c)"

text \<open>The zone UTC.\<close>

definition utcZone :: zone where
  "utcZone = Abs_zone (\<lambda>t. 0, \<lambda>t. 0)"

text \<open>
  Europe/London about the end of summer time in 2026: one hour ahead of UTC before
  2026-10-25T01:00Z (time value 1792890000000), at UTC from then on; a local time value
  before 02:00 of that day is read with the offset of summer time.
\<close>

definition londonZone :: zone where
  "londonZone =
     Abs_zone (\<lambda>t. if t < 1792890000000 then 3600000 else 0,
               \<lambda>t. if t < 1792893600000 then 3600000 else 0)"

section \<open>The streak computation of updateHabitStreaks\<close>

text \<open>
  The \<open>for (const dateStr of sortedDates)\<close> loop of the current streak: the state is
  \<open>(currentStreak, checkDate)\<close>; the \<open>break\<close> returns the state as it stands.
\<close>

fun currentLoop :: "zone \<Rightarrow> date list \<Rightarrow> nat \<times> instant \<Rightarrow> nat \<times> instant" where
  "currentLoop z [] st = st"
| "currentLoop z (dateStr # rest) (currentStreak, checkDate) =
     (let completionDate = newDate dateStr;
          expectedDate = checkDate
      in if completionDate = expectedDate
         then currentLoop z rest (currentStreak + 1, setDateBack z checkDate 1)
         else (currentStreak, checkDate))"

text \<open>
  The body of the \<open>for (let i = 0; i < allDates.length; i++)\<close> loop of the longest streak.
  The state is \<open>(longestStreak, tempStreak)\<close>; \<open>prev\<close> is \<open>allDates[i - 1]\<close>, absent when
  \<open>i = 0\<close>. \<open>dayDiff\<close> is a quotient of numbers, compared with \<open>1\<close>.
\<close>

definition longestBody :: "instant option \<Rightarrow> instant \<Rightarrow> nat \<times> nat \<Rightarrow> nat \<times> nat" where
  "longestBody prev currDate st =
     (case st of (longestStreak, tempStreak) \<Rightarrow>
        (case prev of
           None \<Rightarrow> (longestStreak, 1)
         | Some prevDate \<Rightarrow>
             (let dayDiff = real_of_int (currDate - prevDate) / real_of_int MS_PER_DAY
              in if dayDiff = 1 then (longestStreak, tempStreak + 1)
                 else (max longestStreak tempStreak, 1))))"

fun longestLoop :: "instant option \<Rightarrow> instant list \<Rightarrow> nat \<times> nat \<Rightarrow> nat \<times> nat" where
  "longestLoop prev [] st = st"
| "longestLoop prev (currDate # rest) st =
     longestLoop (Some currDate) rest (longestBody prev currDate st)"

text \<open>
  The computation of \<open>updateHabitStreaks\<close> between the fetch of the completed dates and the
  write of the two fields. \<open>completions\<close> is the \<open>completion_date\<close> column of the fetched
  rows (all of them have \<open>completed = true\<close>), \<open>now\<close> the clock and \<open>z\<close> the time zone of
  the process. The result is \<open>(currentStreak, longestStreak)\<close>.

  \<open>sort((a, b) => new Date(b) - new Date(a))\<close> orders by descending instant and
  \<open>sort((a, b) => a - b)\<close> by ascending instant; both sorts are stable.
\<close>

definition computeStreaks :: "zone \<Rightarrow> instant \<Rightarrow> date list \<Rightarrow> nat \<times> nat" where
  "computeStreaks z now completions =
     (if completions \<noteq> [] then
        (let today = toISODate now;
             yesterday = setDateBack z now 1;
             yesterdayStr = toISODate yesterday;
             sortedDates = sort_key (\<lambda>d. - newDate d) completions;
             currentStreak =
               (if today \<in> set sortedDates \<or> yesterdayStr \<in> set sortedDates
                then fst (currentLoop z sortedDates
                       (0, newDate (if today \<in> set sortedDates then today else yesterdayStr)))
                else 0);
             allDates = sort (map newDate completions);
             (longestStreak, tempStreak) = longestLoop None allDates (0, 0)
         in (currentStreak, max longestStreak tempStreak))
      else (0, 0))"

section \<open>The store\<close>

text \<open>
  The tables \<open>habits\<close> and \<open>habit_completions\<close> of the schema, with the columns the
  service reads or writes. Identifiers (UUIDs) are natural numbers. The columns
  \<open>description\<close> and \<open>updated_at\<close> of \<open>habits\<close> and \<open>created_at\<close> of
  \<open>habit_completions\<close> take part in no computation and are left out; the table \<open>users\<close>
  is not modelled.
\<close>

record habit =
  id_h :: nat
  user_id_h :: nat
  title :: string
  category :: "string option"
  is_archived :: bool
  current_streak :: nat
  longest_streak :: nat
  created_at :: instant

record completion =
  id_c :: nat
  habit_id :: nat
  user_id :: nat
  completion_date :: date
  completed :: bool

text \<open>
  A table is the list of its rows. \<open>outage\<close> is the failure of the store: when it is
  \<open>Some msg\<close>, every request is answered with the error \<open>msg\<close>.
\<close>

record db =
  habits :: "habit list"
  habit_completions :: "completion list"
  outage :: "string option"

datatype error = Error string | RangeError

text \<open>\<open>.single()\<close>: the row when the request yields exactly one, no data otherwise.\<close>

definition single :: "'a list \<Rightarrow> 'a option" where
  "single rows = (case rows of [r] \<Rightarrow> Some r | _ \<Rightarrow> None)"

text \<open>
  \<open>.order(column, { ascending })\<close>. The store fixes no order among rows with equal keys;
  the model keeps them in table order when ascending and reverses that when descending.
\<close>

definition order_rows :: "('a \<Rightarrow> 'k::linorder) \<Rightarrow> bool \<Rightarrow> 'a list \<Rightarrow> 'a list" where
  "order_rows column ascending rows =
     (if ascending then sort_key column rows else rev (sort_key column rows))"

text \<open>\<open>gen_random_uuid()\<close>: an identifier no row of the table has.\<close>

definition fresh_id :: "completion list \<Rightarrow> nat" where
  "fresh_id rows = Suc (fold max (map id_c rows) 0)"

subsection \<open>The requests of toggleHabitCompletion and updateHabitStreaks\<close>

text \<open>
  \<open>from('habit_completions').select('*').eq('habit_id', habitId)
  .eq('completion_date', completionDate).single()\<close>; the service reads only \<open>data\<close>, so a
  failed request is an absent row.
\<close>

definition lookupCompletion :: "db \<Rightarrow> nat \<Rightarrow> date \<Rightarrow> completion option" where
  "lookupCompletion s habitId completionDate =
     (case outage s of
        Some msg \<Rightarrow> None
      | None \<Rightarrow>
          single (filter (\<lambda>c. habit_id c = habitId \<and> completion_date c = completionDate)
            (habit_completions s)))"

text \<open>
  \<open>from('habit_completions').update({ completed }).eq('id', existingCompletion.id)
  .select().single()\<close>.
\<close>

definition updateCompletion :: "db \<Rightarrow> nat \<Rightarrow> bool \<Rightarrow> string + db \<times> completion" where
  "updateCompletion s rowId flag =
     (case outage s of
        Some msg \<Rightarrow> Inl msg
      | None \<Rightarrow>
          (let rows = map (\<lambda>c. if id_c c = rowId then c\<lparr>completed := flag\<rparr> else c)
                        (habit_completions s)
           in case single (filter (\<lambda>c. id_c c = rowId) rows) of
                None \<Rightarrow> Inl ''JSON object requested, multiple (or no) rows returned''
              | Some data \<Rightarrow> Inr (s\<lparr>habit_completions := rows\<rparr>, data)))"

text \<open>
  \<open>from('habit_completions').insert({ habit_id, user_id, completion_date, completed })
  .select().single()\<close>, under the constraints of the schema:
  \<open>habit_id REFERENCES habits(id)\<close> and \<open>UNIQUE(habit_id, completion_date)\<close>.
\<close>

definition insertCompletion :: "db \<Rightarrow> nat \<Rightarrow> nat \<Rightarrow> date \<Rightarrow> bool \<Rightarrow> string + db \<times> completion" where
  "insertCompletion s habitId userId completionDate flag =
     (case outage s of
        Some msg \<Rightarrow> Inl msg
      | None \<Rightarrow>
          if habitId \<notin> set (map id_h (habits s))
          then Inl ''insert or update on table habit_completions violates foreign key constraint''
          else if (habitId, completionDate) \<in>
                    set (map (\<lambda>c. (habit_id c, completion_date c)) (habit_completions s))
          then Inl ''duplicate key value violates unique constraint''
          else
            (let data = \<lparr>id_c = fresh_id (habit_completions s), habit_id = habitId,
                          user_id = userId, completion_date = completionDate,
                          completed = flag\<rparr>
             in Inr (s\<lparr>habit_completions := habit_completions s @ [data]\<rparr>, data)))"

text \<open>
  \<open>from('habit_completions').select('completion_date, completed').eq('habit_id', habitId)
  .eq('completed', true).order('completion_date', { ascending: false })\<close>.
\<close>

definition fetchCompleted :: "db \<Rightarrow> nat \<Rightarrow> string + completion list" where
  "fetchCompleted s habitId =
     (case outage s of
        Some msg \<Rightarrow> Inl msg
      | None \<Rightarrow>
          Inr (order_rows completion_date False
                 (filter (\<lambda>c. habit_id c = habitId \<and> completed c = True) (habit_completions s))))"

text \<open>
  \<open>from('habits').update({ current_streak, longest_streak }).eq('id', habitId)\<close>.
\<close>

definition persistStreaks :: "db \<Rightarrow> nat \<Rightarrow> nat \<Rightarrow> nat \<Rightarrow> string + db" where
  "persistStreaks s habitId currentStreak longestStreak =
     (case outage s of
        Some msg \<Rightarrow> Inl msg
      | None \<Rightarrow>
          Inr (s\<lparr>habits :=
                 map (\<lambda>h. if id_h h = habitId
                           then h\<lparr>current_streak := currentStreak,
                                  longest_streak := longestStreak\<rparr>
                           else h)
                   (habits s)\<rparr>))"

section \<open>updateHabitStreaks and toggleHabitCompletion\<close>

definition updateHabitStreaks ::
  "zone \<Rightarrow> db \<Rightarrow> nat \<Rightarrow> instant \<Rightarrow> error + db \<times> (nat \<times> nat)" where
  "updateHabitStreaks z s habitId now =
     (case fetchCompleted s habitId of
        Inl msg \<Rightarrow> Inl (Error (''Failed to fetch completions for streak calculation: '' @ msg))
      | Inr completions \<Rightarrow>
          (case computeStreaks z now (map completion_date completions) of
             (currentStreak, longestStreak) \<Rightarrow>
               (case persistStreaks s habitId currentStreak longestStreak of
                  Inl msg \<Rightarrow> Inl (Error (''Failed to update streaks: '' @ msg))
                | Inr s' \<Rightarrow> Inr (s', (currentStreak, longestStreak)))))"

text \<open>
  The argument \<open>date\<close> is what \<open>new Date(date)\<close> makes of it: an instant, or \<open>None\<close> for
  an Invalid Date, on which \<open>toISOString()\<close> throws a \<open>RangeError\<close>. The argument
  \<open>completed\<close> is named \<open>flag\<close> here, apart from the column \<open>completed\<close>. The result is the
  new state of the store and the returned row, or the error thrown.
\<close>

definition toggleHabitCompletion ::
  "zone \<Rightarrow> db \<Rightarrow> nat \<Rightarrow> nat \<Rightarrow> instant option \<Rightarrow> bool \<Rightarrow> instant \<Rightarrow>
     error + db \<times> completion" where
  "toggleHabitCompletion z s habitId userId date flag now =
     (case date of
        None \<Rightarrow> Inl RangeError
      | Some t \<Rightarrow>
          (let completionDate = toISODate t;
               existingCompletion = lookupCompletion s habitId completionDate;
               upserted =
                 (case existingCompletion of
                    Some existing \<Rightarrow>
                      (case updateCompletion s (id_c existing) flag of
                         Inl msg \<Rightarrow> Inl (Error (''Failed to update completion: '' @ msg))
                       | Inr res \<Rightarrow> Inr res)
                  | None \<Rightarrow>
                      (case insertCompletion s habitId userId completionDate flag of
                         Inl msg \<Rightarrow> Inl (Error (''Failed to create completion: '' @ msg))
                       | Inr res \<Rightarrow> Inr res))
           in case upserted of
                Inl e \<Rightarrow> Inl e
              | Inr (s', result) \<Rightarrow>
                  (case updateHabitStreaks z s' habitId now of
                     Inl e \<Rightarrow> Inl e
                   | Inr (s'', streaks) \<Rightarrow> Inr (s'', result))))"

section \<open>getUserHabits\<close>

text \<open>
  The options of a call, after the defaults of the destructuring: \<open>days\<close> (an integer),
  the three entries of \<open>filter\<close> (\<open>None\<close> when \<open>undefined\<close>), \<open>sortBy\<close> and \<open>sortOrder\<close>.
\<close>

record options =
  days :: int
  filter_category :: "string option"
  filter_is_archived :: "bool option"
  filter_completed_today :: "bool option"
  sortBy :: string
  sortOrder :: string

text \<open>\<open>{ ...habit, recent_completions: ... }\<close>\<close>

record habitWithHistory =
  habit_fields :: habit
  recent_completions :: "completion list"

text \<open>
  The request for the habits: \<open>eq('user_id', userId)\<close>, the category filter when
  \<open>filter.category\<close> is truthy (a non-empty string), the archive filter when
  \<open>filter.is_archived\<close> is defined, then the order of the \<open>switch\<close>, whose \<open>default\<close>
  shares the branch of \<open>'created_at'\<close>.
\<close>

definition fetchHabits :: "db \<Rightarrow> nat \<Rightarrow> options \<Rightarrow> string + habit list" where
  "fetchHabits s userId opts =
     (case outage s of
        Some msg \<Rightarrow> Inl msg
      | None \<Rightarrow>
          (let q0 = filter (\<lambda>h. user_id_h h = userId) (habits s);
               q1 = (case filter_category opts of
                       None \<Rightarrow> q0
                     | Some c \<Rightarrow> if c \<noteq> [] then filter (\<lambda>h. category h = Some c) q0 else q0);
               q2 = (case filter_is_archived opts of
                       None \<Rightarrow> q1
                     | Some a \<Rightarrow> filter (\<lambda>h. is_archived h = a) q1);
               ascending = (sortOrder opts = ''asc'')
           in Inr (if sortBy opts = ''title'' then order_rows title ascending q2
                   else if sortBy opts = ''current_streak''
                   then order_rows current_streak ascending q2
                   else order_rows created_at ascending q2)))"

text \<open>
  \<open>from('habit_completions').select('habit_id, completion_date, completed')
  .eq('user_id', userId).gte('completion_date', start).lte('completion_date', end)
  .order('completion_date', { ascending: false })\<close>. The rows keep all their columns in the
  model; the service reads the three selected ones only.
\<close>

definition fetchRecent :: "db \<Rightarrow> nat \<Rightarrow> date \<Rightarrow> date \<Rightarrow> string + completion list" where
  "fetchRecent s userId startStr endStr =
     (case outage s of
        Some msg \<Rightarrow> Inl msg
      | None \<Rightarrow>
          Inr (order_rows completion_date False
                 (filter (\<lambda>c. user_id c = userId \<and> startStr \<le> completion_date c
                              \<and> completion_date c \<le> endStr)
                    (habit_completions s))))"

text \<open>The body of \<open>completions.forEach\<close>, which fills \<open>completionsByHabit\<close>.\<close>

definition groupStep :: "(nat \<rightharpoonup> completion list) \<Rightarrow> completion \<Rightarrow> (nat \<rightharpoonup> completion list)" where
  "groupStep completionsByHabit c =
     (case completionsByHabit (habit_id c) of
        None \<Rightarrow> completionsByHabit(habit_id c \<mapsto> [c])
      | Some cs \<Rightarrow> completionsByHabit(habit_id c \<mapsto> cs @ [c]))"

text \<open>The predicate of the completion-based filter.\<close>

definition completedTodayPred :: "bool \<Rightarrow> date \<Rightarrow> habitWithHistory \<Rightarrow> bool" where
  "completedTodayPred completed_today today h =
     (let todayCompletion = find (\<lambda>c. completion_date c = today) (recent_completions h);
          isCompletedToday = (case todayCompletion of None \<Rightarrow> False | Some c \<Rightarrow> completed c)
      in if completed_today then isCompletedToday else \<not> isCompletedToday)"

text \<open>
  \<open>getUserHabits\<close>: the habits of the user, each with its window of recent completions.
  \<open>startDate.setDate(endDate.getDate() - days + 1)\<close> moves the start of the window
  \<open>days - 1\<close> local days back from the clock; \<open>startDate.toISOString()\<close> throws when that
  is no valid time value. The three readings of the clock in the source are the one \<open>now\<close>.
\<close>

definition getUserHabits ::
  "zone \<Rightarrow> db \<Rightarrow> nat \<Rightarrow> options \<Rightarrow> instant \<Rightarrow> error + habitWithHistory list" where
  "getUserHabits z s userId opts now =
     (case fetchHabits s userId opts of
        Inl msg \<Rightarrow> Inl (Error (''Failed to fetch habits: '' @ msg))
      | Inr hs \<Rightarrow>
          if hs = [] then Inr []
          else
            (let endDate = now;
                 startDate = TimeClip (setDateBack z now (days opts - 1))
             in case startDate of
                  None \<Rightarrow> Inl RangeError
                | Some start \<Rightarrow>
                    (case fetchRecent s userId (toISODate start) (toISODate endDate) of
                       Inl msg \<Rightarrow> Inl (Error (''Failed to fetch completions: '' @ msg))
                     | Inr completions \<Rightarrow>
                         (let completionsByHabit = foldl groupStep Map.empty completions;
                              habitsWithHistory =
                                map (\<lambda>h. \<lparr>habit_fields = h,
                                           recent_completions =
                                             (case completionsByHabit (id_h h) of
                                                None \<Rightarrow> []
                                              | Some cs \<Rightarrow> cs)\<rparr>) hs
                          in Inr (case filter_completed_today opts of
                                    None \<Rightarrow> habitsWithHistory
                                  | Some completed_today \<Rightarrow>
                                      filter (completedTodayPred completed_today (toISODate now))
                                        habitsWithHistory)))))"

section \<open>Notions the properties are stated with\<close>

text \<open>The \<open>k\<close> days that end with day \<open>a\<close> are all in \<open>S\<close>.\<close>

definition consecutive_run :: "date set \<Rightarrow> date \<Rightarrow> nat \<Rightarrow> bool" where
  "consecutive_run S a k \<longleftrightarrow> (\<forall>i<k. a - int i \<in> S)"

text \<open>
  The longest streak in the words of the specification: over the dates in ascending
  order, the running length is 1 at the first date and whenever the gap to the
  predecessor is more than one day, and one more than before otherwise; the longest
  streak is the greatest running length, 0 when there is no date.
\<close>

fun spec_runs :: "date option \<Rightarrow> nat \<Rightarrow> date list \<Rightarrow> nat list" where
  "spec_runs prev run [] = []"
| "spec_runs prev run (d # ds) =
     (let run' = (case prev of None \<Rightarrow> 1 | Some p \<Rightarrow> if d - p > 1 then 1 else run + 1)
      in run' # spec_runs (Some d) run' ds)"

definition spec_longest :: "date list \<Rightarrow> nat" where
  "spec_longest ds = fold max (spec_runs None 0 (sort ds)) 0"

text \<open>
  The current streak in the words of the specification: 0 when there is no completed
  date; else the anchor is today when today is completed, yesterday when only yesterday
  is, and without either the streak is 0; from the anchor the walk goes back one day at a
  time and counts the days as long as they are completed. A walk over \<open>n\<close> dates ends
  after at most \<open>n\<close> steps.
\<close>

fun spec_walk :: "date set \<Rightarrow> date \<Rightarrow> nat \<Rightarrow> nat" where
  "spec_walk S d 0 = 0"
| "spec_walk S d (Suc n) = (if d \<in> S then Suc (spec_walk S (d - 1) n) else 0)"

definition spec_current :: "date \<Rightarrow> date list \<Rightarrow> nat" where
  "spec_current today ds =
     (if ds = [] then 0
      else if today \<in> set ds then spec_walk (set ds) today (length ds)
      else if today - 1 \<in> set ds then spec_walk (set ds) (today - 1) (length ds)
      else 0)"

text \<open>\<open>UNIQUE(habit_id, completion_date)\<close> as a property of a state of the store.\<close>

definition unique_completions :: "db \<Rightarrow> bool" where
  "unique_completions s \<longleftrightarrow>
     distinct (map (\<lambda>c. (habit_id c, completion_date c)) (habit_completions s))"

text \<open>
  The completed dates of a habit in a state of the store: the \<open>completion_date\<close> of all
  its rows with \<open>completed = true\<close>, in table order.
\<close>

definition completedDates :: "db \<Rightarrow> nat \<Rightarrow> date list" where
  "completedDates s habitId =
     map completion_date
       (filter (\<lambda>c. habit_id c = habitId \<and> completed c) (habit_completions s))"

text \<open>The rows of the store that a toggle of \<open>(habitId, completionDate)\<close> addresses.\<close>

definition recordsFor :: "db \<Rightarrow> nat \<Rightarrow> date \<Rightarrow> completion list" where
  "recordsFor s habitId completionDate =
     filter (\<lambda>c. habit_id c = habitId \<and> completion_date c = completionDate)
       (habit_completions s)"

text \<open>Whether the bounded window of a habit holds a completed record of the day.\<close>

definition completedOn :: "date \<Rightarrow> habitWithHistory \<Rightarrow> bool" where
  "completedOn day h \<longleftrightarrow>
     (\<exists>c\<in>set (recent_completions h). completion_date c = day \<and> completed c)"

subsection \<open>A small store for the examples\<close>

definition example_habit :: habit where
  "example_habit =
     \<lparr>id_h = 1, user_id_h = 7, title = ''Read'', category = None, is_archived = False,
      current_streak = 0, longest_streak = 0, created_at = 0\<rparr>"

definition example_row :: completion where
  "example_row =
     \<lparr>id_c = 1, habit_id = 1, user_id = 7, completion_date = 10, completed = True\<rparr>"

definition example_db :: db where
  "example_db = \<lparr>habits = [example_habit], habit_completions = [], outage = None\<rparr>"

definition example_db' :: db where
  "example_db' =
     \<lparr>habits = [example_habit\<lparr>current_streak := 1, longest_streak := 1\<rparr>],
      habit_completions = [example_row], outage = None\<rparr>"

definition later_row :: completion where
  "later_row =
     \<lparr>id_c = 2, habit_id = 1, user_id = 7, completion_date = 11, completed = True\<rparr>"

definition example_db_later :: db where
  "example_db_later =
     \<lparr>habits = [example_habit\<lparr>current_streak := 0, longest_streak := 2\<rparr>],
      habit_completions = [example_row, later_row], outage = None\<rparr>"

definition early_row :: completion where
  "early_row =
     \<lparr>id_c = 1, habit_id = 1, user_id = 7, completion_date = 8, completed = True\<rparr>"

definition example_options :: options where
  "example_options =
     \<lparr>days = 14, filter_category = None, filter_is_archived = None,
      filter_completed_today = None, sortBy = ''created_at'', sortOrder = ''desc''\<rparr>"

subsection \<open>Auxiliary notions of the proofs\<close>

text \<open>What \<open>computeStreaks\<close> computes from the ascending list of the dates.\<close>

definition streaksOfSorted :: "zone \<Rightarrow> date \<Rightarrow> date \<Rightarrow> date list \<Rightarrow> nat \<times> nat" where
  "streaksOfSorted z today yesterdayStr xs =
     ((if today \<in> set xs \<or> yesterdayStr \<in> set xs
       then fst (currentLoop z (rev xs)
              (0, newDate (if today \<in> set xs then today else yesterdayStr)))
       else 0),
      (case longestLoop None (map newDate xs) (0, 0) of (l, t) \<Rightarrow> max l t))"

text \<open>The length of the longest prefix of \<open>ys\<close> that reads \<open>a, a - 1, a - 2, \<dots>\<close>\<close>

fun desc_run :: "date \<Rightarrow> date list \<Rightarrow> nat" where
  "desc_run a [] = 0"
| "desc_run a (y # ys) = (if y = a then Suc (desc_run (a - 1) ys) else 0)"

text \<open>The invariant of the longest-streak loop after the ascending prefix \<open>p\<close>.\<close>

definition longest_inv :: "date list \<Rightarrow> nat \<times> nat \<Rightarrow> bool" where
  "longest_inv p st \<longleftrightarrow>
     (case st of (l, t) \<Rightarrow>
        consecutive_run (set p) (last p) t \<and> last p - int t \<notin> set p \<and>
        (\<forall>y\<in>set p. \<forall>k. consecutive_run (set p) y k \<longrightarrow> k \<le> max l t) \<and>
        (\<exists>y. consecutive_run (set p) y l))"

text \<open>The write of \<open>persistStreaks\<close> on one row of \<open>habits\<close>.\<close>

definition setStreaks :: "nat \<Rightarrow> nat \<times> nat \<Rightarrow> habit \<Rightarrow> habit" where
  "setStreaks habitId r h =
     (if id_h h = habitId then h\<lparr>current_streak := fst r, longest_streak := snd r\<rparr> else h)"

text \<open>The write of \<open>updateCompletion\<close> on one row of \<open>habit_completions\<close>.\<close>

definition setCompleted :: "nat \<Rightarrow> bool \<Rightarrow> completion \<Rightarrow> completion" where
  "setCompleted rowId flag c = (if id_c c = rowId then c\<lparr>completed := flag\<rparr> else c)"

section \<open>Dates and instants\<close>

lemma MS_PER_DAY_pos: "0 < MS_PER_DAY"
  by (simp add: MS_PER_DAY_def)

lemma newDate_eq_iff: "newDate a = newDate b \<longleftrightarrow> a = b"
  using MS_PER_DAY_pos by (simp add: newDate_def)

lemma newDate_le_iff: "newDate a \<le> newDate b \<longleftrightarrow> a \<le> b"
  using MS_PER_DAY_pos by (simp add: newDate_def)

lemma newDate_pred: "newDate a - MS_PER_DAY = newDate (a - 1)"
  by (simp add: newDate_def algebra_simps)

lemma toISODate_newDate: "toISODate (newDate d) = d"
  using MS_PER_DAY_pos by (simp add: toISODate_def newDate_def)

lemma toISODate_days_back: "toISODate (now - n * MS_PER_DAY) = toISODate now - n"
proof -
  have ne: "MS_PER_DAY \<noteq> 0"
    using MS_PER_DAY_pos by simp
  have "(now + (- n) * MS_PER_DAY) div MS_PER_DAY = - n + now div MS_PER_DAY"
    by (rule div_mult_self1 [OF ne])
  then show ?thesis
    by (simp add: toISODate_def)
qed

lemma toISODate_yesterday: "toISODate (now - MS_PER_DAY) = toISODate now - 1"
  using toISODate_days_back [of now 1] by simp

lemma dayDiff_eq_1_iff:
  "real_of_int (newDate c - newDate p) / real_of_int MS_PER_DAY = 1 \<longleftrightarrow> c - p = 1"
proof -
  have "newDate c - newDate p = (c - p) * MS_PER_DAY"
    by (simp add: newDate_def algebra_simps)
  moreover have "real_of_int MS_PER_DAY \<noteq> 0"
    using MS_PER_DAY_pos by simp
  ultimately have
    "real_of_int (newDate c - newDate p) / real_of_int MS_PER_DAY = real_of_int (c - p)"
    by simp
  then show ?thesis
    by (simp only: of_int_eq_1_iff)
qed

section \<open>Time zones\<close>

lemma zone_spread: "\<bar>utcOffset z t - localOffset z t'\<bar> < MS_PER_DAY"
  using Rep_zone [of z] by (simp add: utcOffset_def localOffset_def)

lemma setDateBack_eq:
  "setDateBack z t n = t - n * MS_PER_DAY + (utcOffset z t - localOffset z (t + utcOffset z t - n * MS_PER_DAY))"
  by (simp add: setDateBack_def Let_def)

lemma setDateBack_fixed: "fixed_offset z \<Longrightarrow> setDateBack z t n = t - n * MS_PER_DAY"
  by (auto simp: fixed_offset_def setDateBack_eq)

lemma Rep_utcZone: "Rep_zone utcZone = (\<lambda>t. 0, \<lambda>t. 0)"
  unfolding utcZone_def by (rule Abs_zone_inverse) (simp add: MS_PER_DAY_def)

lemma utcZone_offsets [simp]: "utcOffset utcZone t = 0" "localOffset utcZone t = 0"
  by (simp_all add: utcOffset_def localOffset_def Rep_utcZone)

lemma fixed_offset_utcZone: "fixed_offset utcZone"
  by (simp add: fixed_offset_def)

lemma setDateBack_utcZone [simp]: "setDateBack utcZone t n = t - n * MS_PER_DAY"
  by (simp add: setDateBack_eq)

lemma Rep_londonZone:
  "Rep_zone londonZone =
     (\<lambda>t. if t < 1792890000000 then 3600000 else 0,
      \<lambda>t. if t < 1792893600000 then 3600000 else 0)"
  unfolding londonZone_def by (rule Abs_zone_inverse) (simp add: MS_PER_DAY_def)

lemma londonZone_offsets:
  "utcOffset londonZone t = (if t < 1792890000000 then 3600000 else 0)"
  "localOffset londonZone t = (if t < 1792893600000 then 3600000 else 0)"
  by (simp_all add: utcOffset_def localOffset_def Rep_londonZone)

text \<open>One local day back from a UTC midnight is a UTC midnight only of the day before.\<close>

lemma setDateBack_midnight:
  assumes "setDateBack z (newDate a) 1 = newDate d"
  shows "d = a - 1"
proof -
  let ?e = "utcOffset z (newDate a) - localOffset z (newDate a + utcOffset z (newDate a) - 1 * MS_PER_DAY)"
  from assms have "newDate a - MS_PER_DAY + ?e = newDate d"
    by (simp add: setDateBack_eq)
  then have e: "?e = (d - a + 1) * MS_PER_DAY"
    by (simp add: newDate_def algebra_simps)
  have "\<bar>?e\<bar> < MS_PER_DAY"
    by (rule zone_spread)
  with e have "\<bar>d - a + 1\<bar> * MS_PER_DAY < 1 * MS_PER_DAY"
    using MS_PER_DAY_pos by (simp add: abs_mult)
  then have "\<bar>d - a + 1\<bar> < 1"
    using MS_PER_DAY_pos by (simp only: mult_less_cancel_right_pos)
  then show ?thesis
    by simp
qed

text \<open>A window that starts two or more local days after the clock starts after today.\<close>

lemma setDateBack_future:
  assumes "n \<le> - 2"
  shows "toISODate now < toISODate (setDateBack z now n)"
proof -
  let ?e = "utcOffset z now - localOffset z (now + utcOffset z now - n * MS_PER_DAY)"
  have "\<bar>?e\<bar> < MS_PER_DAY"
    by (rule zone_spread)
  then have "- MS_PER_DAY < ?e"
    by simp
  moreover have "2 * MS_PER_DAY \<le> - n * MS_PER_DAY"
    using assms MS_PER_DAY_pos by (simp only: mult_le_cancel_right_pos)
  ultimately have "now + MS_PER_DAY \<le> setDateBack z now n"
    by (simp add: setDateBack_eq)
  then have "toISODate (now + MS_PER_DAY) \<le> toISODate (setDateBack z now n)"
    unfolding toISODate_def using MS_PER_DAY_pos by (rule zdiv_mono1)
  moreover have "toISODate (now + MS_PER_DAY) = toISODate now + 1"
    using toISODate_days_back [of now "- 1"] by simp
  ultimately show ?thesis
    by simp
qed

section \<open>The two sorts\<close>

lemma sortedDates_eq: "sort_key (\<lambda>d. - newDate d) ds = rev (sort ds)"
proof (rule sort_key_inj_key_eq)
  show "mset ds = mset (rev (sort ds))"
    by simp
  show "inj_on (\<lambda>d. - newDate d) (set ds)"
    by (simp add: inj_on_def newDate_eq_iff)
  have "sorted_wrt (\<lambda>x y. - newDate y \<le> - newDate x) (sort ds)"
    using sorted_sort [of ds] by (simp add: newDate_le_iff)
  then show "sorted (map (\<lambda>d. - newDate d) (rev (sort ds)))"
    by (simp add: sorted_map sorted_wrt_rev)
qed

lemma allDates_eq: "sort (map newDate ds) = map newDate (sort ds)"
proof (rule properties_for_sort)
  show "mset (map newDate (sort ds)) = mset (map newDate ds)"
    by simp
  show "sorted (map newDate (sort ds))"
    using sorted_sort [of ds] by (simp add: sorted_map newDate_le_iff)
qed

lemma sort_cong_mset: "mset ds = mset ds' \<Longrightarrow> sort ds = sort ds'"
  by (metis properties_for_sort sorted_sort mset_sort)

lemma computeStreaks_sorted:
  "computeStreaks z now ds =
     (if ds \<noteq> []
      then streaksOfSorted z (toISODate now) (toISODate (setDateBack z now 1)) (sort ds)
      else (0, 0))"
  by (simp add: computeStreaks_def streaksOfSorted_def sortedDates_eq allDates_eq Let_def
      split: prod.splits)

lemma computeStreaks_mset:
  assumes "mset ds = mset ds'"
  shows "computeStreaks z now ds = computeStreaks z now ds'"
proof -
  from assms have "sort ds = sort ds'"
    by (rule sort_cong_mset)
  moreover from assms have "ds = [] \<longleftrightarrow> ds' = []"
    by (metis mset_zero_iff)
  ultimately show ?thesis
    by (simp add: computeStreaks_sorted)
qed


lemma yesterdayStr_fixed:
  "fixed_offset z \<Longrightarrow> toISODate (setDateBack z now 1) = toISODate now - 1"
  by (simp add: setDateBack_fixed toISODate_yesterday)

section \<open>The loops\<close>

lemma currentLoop_fixed:
  "fixed_offset z \<Longrightarrow> fst (currentLoop z ys (n, newDate a)) = n + desc_run a ys"
  by (induction ys arbitrary: n a)
    (simp_all add: newDate_eq_iff newDate_pred setDateBack_fixed)

lemma currentLoop_no_midnight:
  "\<forall>d. checkDate \<noteq> newDate d \<Longrightarrow> currentLoop z ys (n, checkDate) = (n, checkDate)"
  by (cases ys) (auto simp: Let_def)

text \<open>
  In every zone the loop counts at most the dates that read \<open>a, a - 1, a - 2, \<dots>\<close> at the
  head of the descending list.
\<close>

lemma currentLoop_le_desc_run:
  "fst (currentLoop z ys (n, newDate a)) \<le> n + desc_run a ys"
proof (induction ys arbitrary: n a)
  case Nil
  show ?case by simp
next
  case (Cons y ys)
  show ?case
  proof (cases "y = a")
    case False
    then show ?thesis
      by (simp add: newDate_eq_iff)
  next
    case True
    let ?c = "setDateBack z (newDate a) 1"
    have step: "currentLoop z (y # ys) (n, newDate a) = currentLoop z ys (n + 1, ?c)"
      using True by simp
    show ?thesis
    proof (cases "\<exists>d. ?c = newDate d")
      case True
      then obtain d where d: "?c = newDate d"
        by blast
      then have "d = a - 1"
        by (rule setDateBack_midnight)
      with d Cons.IH [of "n + 1" "a - 1"] step \<open>y = a\<close> show ?thesis
        by simp
    next
      case False
      then have "currentLoop z ys (n + 1, ?c) = (n + 1, ?c)"
        by (intro currentLoop_no_midnight) simp
      with step \<open>y = a\<close> show ?thesis
        by simp
    qed
  qed
qed

lemma longestBody_dates:
  "longestBody (Some (newDate p)) (newDate c) (l, t) =
     (if c - p = 1 then (l, t + 1) else (max l t, 1))"
  by (simp only: longestBody_def Let_def prod.case option.case dayDiff_eq_1_iff)

lemma longestBody_first: "longestBody None c (l, t) = (l, 1)"
  by (simp add: longestBody_def)

lemma longestLoop_snoc:
  "longestLoop prev (xs @ [z]) st =
     longestBody (if xs = [] then prev else Some (last xs)) z (longestLoop prev xs st)"
  by (induction xs arbitrary: prev st) simp_all

lemma snd_longestBody_pos: "1 \<le> snd (longestBody prev c st)"
  by (cases st; cases prev) (simp_all add: longestBody_def Let_def)

lemma temp_ge_desc_run:
  "desc_run a ys \<le> snd (longestLoop prev (map newDate (rev ys)) st)"
proof (induction ys arbitrary: a)
  case Nil
  show ?case by simp
next
  case (Cons y ys)
  show ?case
  proof (cases "y = a")
    case False
    then show ?thesis by simp
  next
    case True
    show ?thesis
    proof (cases ys)
      case Nil
      with True show ?thesis
        using snd_longestBody_pos [of prev "newDate a" st] by simp
    next
      case (Cons y' ys')
      obtain l t where lt: "longestLoop prev (map newDate (rev ys)) st = (l, t)"
        by (cases "longestLoop prev (map newDate (rev ys)) st")
      have ih: "desc_run (a - 1) ys \<le> t"
        using Cons.IH [of "a - 1"] lt by simp
      have snoc: "map newDate (rev (y # ys)) = map newDate (rev ys) @ [newDate a]"
        using True by simp
      have nonempty: "map newDate (rev ys) \<noteq> []"
        using Cons by simp
      have last: "last (map newDate (rev ys)) = newDate y'"
        using Cons by simp
      have step: "longestLoop prev (map newDate (rev (y # ys))) st =
          longestBody (Some (newDate y')) (newDate a) (l, t)"
        by (simp only: snoc longestLoop_snoc nonempty last lt if_False)
      show ?thesis
      proof (cases "y' = a - 1")
        case True
        with step ih \<open>y = a\<close> show ?thesis
          by (simp add: longestBody_dates)
      next
        case False
        with Cons have "desc_run (a - 1) ys = 0" by simp
        with step \<open>y = a\<close> show ?thesis
          by (simp add: longestBody_dates)
      qed
    qed
  qed
qed

section \<open>Properties of the streak computation\<close>

text \<open>
  C4 (order independence): two sequences that hold the same dates, in any order, give the
  same pair of streaks for the same reading of the clock, in every time zone.
\<close>

theorem order_independence:
  "mset ds = mset ds' \<Longrightarrow> computeStreaks z now ds = computeStreaks z now ds'"
  by (rule computeStreaks_mset)

theorem order_independence_witness:
  "mset [3, 1, 2 :: int] = mset [1, 2, 3] \<and>
   computeStreaks utcZone (newDate 3) [3, 1, 2] = computeStreaks utcZone (newDate 3) [1, 2, 3]"
  using order_independence [of "[3, 1, 2]" "[1, 2, 3]" utcZone "newDate 3"] by simp

text \<open>
  The grace day in a zone of fixed offset (UTC among them): when the only completed date
  is the day before the clock's day, the current streak is 1 and the longest streak is 1.
\<close>

lemma grace_day_fixed_offset:
  "fixed_offset z \<Longrightarrow> computeStreaks z now [toISODate now - 1] = (1, 1)"
  by (simp add: computeStreaks_def longestBody_def yesterdayStr_fixed)

text \<open>
  C5 (grace day): yesterday completed and today not should give the current streak 1 and
  the longest streak 1 on every day. In the zone Europe/London, with the clock at
  2026-10-26T00:30Z (day 20752) and the single completed date 2026-10-25 (day 20751),
  \<open>setDate(getDate() - 1)\<close> gives the local time 00:30 of 25 October, which is summer time
  and so 23:30Z of 24 October: \<open>yesterdayStr\<close> is day 20750, neither today nor
  \<open>yesterdayStr\<close> is completed, and the computed streaks are 0 and 1.
\<close>

theorem grace_day_lost_at_end_of_summer_time:
  "toISODate 1792974600000 = 20752 \<and>
   toISODate (setDateBack londonZone 1792974600000 1) = 20750 \<and>
   computeStreaks londonZone 1792974600000 [20751] = (0, 1)"
  by (simp add: computeStreaks_def longestBody_def setDateBack_def londonZone_offsets
      toISODate_def MS_PER_DAY_def Let_def)

text \<open>
  C9: the longest streak is never less than the current streak, for every sequence of
  completed dates, every reading of the clock and every time zone.
\<close>

theorem longest_ge_current: "fst (computeStreaks z now ds) \<le> snd (computeStreaks z now ds)"
proof (cases "ds = []")
  case True
  then show ?thesis by (simp add: computeStreaks_def)
next
  case False
  obtain l t where lt: "longestLoop None (map newDate (sort ds)) (0, 0) = (l, t)"
    by (cases "longestLoop None (map newDate (sort ds)) (0, 0)")
  have "fst (currentLoop z (rev (sort ds)) (0, newDate a)) \<le> t" for a
    using temp_ge_desc_run [of a "rev (sort ds)" None "(0, 0)"] lt
      currentLoop_le_desc_run [of z "rev (sort ds)" 0 a]
    by simp
  then show ?thesis
    using False lt by (simp add: computeStreaks_sorted streaksOfSorted_def le_max_iff_disj)
qed

section \<open>The longest streak is the longest run of consecutive days\<close>

lemma consecutive_run_0: "consecutive_run S a 0"
  by (simp add: consecutive_run_def)

lemma consecutive_run_bound:
  "consecutive_run S a k \<Longrightarrow> a - int t \<notin> S \<Longrightarrow> k \<le> t"
  unfolding consecutive_run_def by (meson not_le)

lemma consecutive_run_insert_above:
  "y < z \<Longrightarrow> consecutive_run (insert z P) y k \<longleftrightarrow> consecutive_run P y k"
  unfolding consecutive_run_def by auto

lemma consecutive_run_mono:
  "consecutive_run P y k \<Longrightarrow> P \<subseteq> Q \<Longrightarrow> consecutive_run Q y k"
  unfolding consecutive_run_def by auto

lemma consecutive_run_Suc:
  "consecutive_run S (a + 1) (Suc k) \<longleftrightarrow> a + 1 \<in> S \<and> consecutive_run S a k"
proof -
  have "(\<forall>i<Suc k. a + 1 - int i \<in> S) \<longleftrightarrow> a + 1 \<in> S \<and> (\<forall>i<k. a + 1 - int (Suc i) \<in> S)"
    by (simp add: All_less_Suc2)
  then show ?thesis
    by (simp add: consecutive_run_def)
qed

lemma consecutive_run_end_in:
  "consecutive_run S a k \<Longrightarrow> 0 < k \<Longrightarrow> a \<in> S"
  unfolding consecutive_run_def by force

lemma strict_sorted_le_last:
  "sorted_wrt (<) p \<Longrightarrow> y \<in> set p \<Longrightarrow> (y::int) \<le> last p"
proof (induction p)
  case Nil
  then show ?case by simp
next
  case (Cons a p)
  show ?case
  proof (cases "p = []")
    case True
    with Cons.prems show ?thesis by simp
  next
    case False
    then have "last p \<in> set p" by simp
    with Cons.prems have lt: "a < last p" by simp
    have srt: "sorted_wrt (<) p" using Cons.prems by simp
    show ?thesis
    proof (cases "y = a")
      case True
      with lt False show ?thesis by simp
    next
      case False
      with Cons.prems have "y \<in> set p" by simp
      with Cons.IH srt \<open>p \<noteq> []\<close> show ?thesis by simp
    qed
  qed
qed

lemma longest_invI:
  "consecutive_run (set p) (last p) t \<Longrightarrow> last p - int t \<notin> set p \<Longrightarrow>
   \<forall>y\<in>set p. \<forall>k. consecutive_run (set p) y k \<longrightarrow> k \<le> max l t \<Longrightarrow>
   \<exists>y. consecutive_run (set p) y l \<Longrightarrow> longest_inv p (l, t)"
  by (simp add: longest_inv_def)

lemma longest_inv_single: "longest_inv [z] (0, Suc 0)"
proof -
  have "k \<le> 1" if "consecutive_run {z} z k" for k
    using that consecutive_run_bound [of "{z}" z k 1] by simp
  then show ?thesis
    by (simp add: longest_inv_def consecutive_run_def)
qed

lemma longest_inv_step:
  assumes inv: "longest_inv p (l, t)" and ne: "p \<noteq> []" and srt: "sorted_wrt (<) (p @ [z])"
  shows "longest_inv (p @ [z]) (if z - last p = 1 then (l, t + 1) else (max l t, 1))"
proof -
  let ?x = "last p"
  let ?P = "set p"
  let ?S = "insert z ?P"
  have below: "\<forall>y\<in>?P. y < z" and srt_p: "sorted_wrt (<) p"
    using srt by (simp_all add: sorted_wrt_append)
  have x_in: "?x \<in> ?P" using ne by simp
  have x_lt: "?x < z" using below x_in by blast
  have le_x: "y \<le> ?x" if "y \<in> ?P" for y
    using strict_sorted_le_last [OF srt_p that] .
  have run_t: "consecutive_run ?P ?x t" and stop_t: "?x - int t \<notin> ?P"
    and bound: "\<And>y k. y \<in> ?P \<Longrightarrow> consecutive_run ?P y k \<Longrightarrow> k \<le> max l t"
    and attained: "\<exists>y. consecutive_run ?P y l"
    using inv by (auto simp: longest_inv_def)
  have old: "consecutive_run ?S y k \<longleftrightarrow> consecutive_run ?P y k" if "y \<in> ?P" for y k
    using consecutive_run_insert_above below that by blast
  have attained_l: "\<exists>y. consecutive_run ?S y l"
    using attained consecutive_run_mono [of ?P _ l ?S] by blast
  show ?thesis
  proof (cases "z - ?x = 1")
    case True
    then have z: "z = ?x + 1" by simp
    have run: "consecutive_run ?S z (t + 1)"
      using run_t consecutive_run_mono [of ?P ?x t ?S]
      by (simp add: z consecutive_run_Suc subset_insertI)
    have "?x - int t \<noteq> z" using x_lt by simp
    then have stop: "z - int (t + 1) \<notin> ?S"
      using stop_t by (simp add: z)
    have "k \<le> max l (t + 1)" if "y \<in> ?S" "consecutive_run ?S y k" for y k
    proof (cases "y = z")
      case True
      with that stop consecutive_run_bound [of ?S z k "t + 1"] show ?thesis by simp
    next
      case False
      with that have "y \<in> ?P" by simp
      with that old bound [of y k] show ?thesis by simp
    qed
    then have bnd: "\<forall>y\<in>?S. \<forall>k. consecutive_run ?S y k \<longrightarrow> k \<le> max l (t + 1)"
      by blast
    have "longest_inv (p @ [z]) (l, t + 1)"
      using run stop bnd attained_l by (intro longest_invI) simp_all
    with True show ?thesis by simp
  next
    case False
    have "z - 1 \<notin> ?P"
    proof
      assume "z - 1 \<in> ?P"
      then have "z - 1 \<le> ?x" by (rule le_x)
      with x_lt False show False by simp
    qed
    then have stop: "z - int 1 \<notin> ?S" by simp
    have run: "consecutive_run ?S z 1"
      by (simp add: consecutive_run_def)
    have "k \<le> max (max l t) 1" if "y \<in> ?S" "consecutive_run ?S y k" for y k
    proof (cases "y = z")
      case True
      with that stop consecutive_run_bound [of ?S z k 1] show ?thesis by simp
    next
      case False
      with that have "y \<in> ?P" by simp
      with that old bound [of y k] show ?thesis by simp
    qed
    then have bnd: "\<forall>y\<in>?S. \<forall>k. consecutive_run ?S y k \<longrightarrow> k \<le> max (max l t) 1"
      by blast
    have att: "\<exists>y. consecutive_run ?S y (max l t)"
    proof (cases "l \<le> t")
      case True
      then have "max l t = t" by simp
      moreover have "consecutive_run ?S ?x t"
        using run_t old x_in by simp
      ultimately show ?thesis by auto
    next
      case False
      then have "max l t = l" by simp
      with attained_l show ?thesis by simp
    qed
    have "longest_inv (p @ [z]) (max l t, 1)"
      using run stop bnd att by (intro longest_invI) simp_all
    with False show ?thesis by simp
  qed
qed

lemma longestLoop_inv:
  "sorted_wrt (<) p \<Longrightarrow> p \<noteq> [] \<Longrightarrow> longest_inv p (longestLoop None (map newDate p) (0, 0))"
proof (induction p rule: rev_induct)
  case Nil
  then show ?case by simp
next
  case (snoc z p)
  show ?case
  proof (cases "p = []")
    case True
    then show ?thesis
      by (simp add: longestBody_first longest_inv_single)
  next
    case False
    have srt_p: "sorted_wrt (<) p"
      using snoc.prems by (simp add: sorted_wrt_append)
    obtain l t where lt: "longestLoop None (map newDate p) (0, 0) = (l, t)"
      by (cases "longestLoop None (map newDate p) (0, 0)")
    have inv: "longest_inv p (l, t)"
      using snoc.IH [OF srt_p False] lt by simp
    have nonempty: "map newDate p \<noteq> []" using False by simp
    have last: "last (map newDate p) = newDate (last p)"
      using False by (simp add: last_map)
    have "longestLoop None (map newDate (p @ [z])) (0, 0) =
        longestBody (Some (newDate (last p))) (newDate z) (l, t)"
      by (simp only: map_append list.map longestLoop_snoc nonempty last lt if_False)
    then show ?thesis
      using longest_inv_step [OF inv False snoc.prems(1)]
      by (simp add: longestBody_dates)
  qed
qed

lemma longest_is_max_run:
  assumes "distinct ds"
  shows "(\<exists>a. consecutive_run (set ds) a (snd (computeStreaks z now ds))) \<and>
         (\<forall>a k. consecutive_run (set ds) a k \<longrightarrow> k \<le> snd (computeStreaks z now ds))"
proof (cases "ds = []")
  case True
  have "k \<le> 0" if "consecutive_run {} a k" for a :: date and k
    using that consecutive_run_bound [of "{}" a k 0] by simp
  with True show ?thesis
    by (auto simp: computeStreaks_def consecutive_run_0)
next
  case False
  let ?xs = "sort ds"
  have srt: "sorted_wrt (<) ?xs"
    using assms by (simp add: strict_sorted_iff)
  have ne: "?xs \<noteq> []" using False by (metis length_sort length_0_conv)
  obtain l t where lt: "longestLoop None (map newDate ?xs) (0, 0) = (l, t)"
    by (cases "longestLoop None (map newDate ?xs) (0, 0)")
  have res: "snd (computeStreaks z now ds) = max l t"
    using False lt by (simp add: computeStreaks_sorted streaksOfSorted_def)
  have inv: "longest_inv ?xs (l, t)"
    using longestLoop_inv [OF srt ne] lt by simp
  have run_t: "consecutive_run (set ds) (last ?xs) t"
    and bound: "\<And>y k. y \<in> set ds \<Longrightarrow> consecutive_run (set ds) y k \<Longrightarrow> k \<le> max l t"
    and attained: "\<exists>y. consecutive_run (set ds) y l"
    using inv by (auto simp: longest_inv_def)
  have "\<exists>a. consecutive_run (set ds) a (max l t)"
  proof (cases "l \<le> t")
    case True
    then have "max l t = t" by simp
    with run_t show ?thesis by auto
  next
    case False
    then have "max l t = l" by simp
    with attained show ?thesis by simp
  qed
  moreover have "k \<le> max l t" if "consecutive_run (set ds) a k" for a k
  proof (cases "k = 0")
    case True
    then show ?thesis by simp
  next
    case False
    with that have "a \<in> set ds" by (simp add: consecutive_run_end_in)
    then show ?thesis using that by (rule bound)
  qed
  ultimately show ?thesis
    by (simp add: res)
qed

subsection \<open>The loop against the scan of the specification\<close>

lemma longestLoop_spec_runs:
  "sorted_wrt (<) (p # xs) \<Longrightarrow>
   (case longestLoop (Some (newDate p)) (map newDate xs) (l, t) of (l', t') \<Rightarrow> max l' t') =
   fold max (spec_runs (Some p) t xs) (max l t)"
proof (induction xs arbitrary: p l t)
  case Nil
  then show ?case by simp
next
  case (Cons x xs)
  from Cons.prems have px: "p < x" and srt: "sorted_wrt (<) (x # xs)"
    by simp_all
  show ?case
  proof (cases "x - p = 1")
    case True
    have "max (t + 1) (max l t) = max l (t + 1)" by simp
    with True Cons.IH [OF srt, of l "t + 1"] show ?thesis
      by (simp add: longestBody_dates)
  next
    case False
    with px have gap: "x - p > 1" by simp
    have "max 1 (max l t) = max (max l t) 1" by simp
    with gap False Cons.IH [OF srt, of "max l t" 1] show ?thesis
      by (simp add: longestBody_dates)
  qed
qed

lemma longest_eq_spec_longest:
  assumes "distinct ds"
  shows "snd (computeStreaks z now ds) = spec_longest ds"
proof (cases "sort ds")
  case Nil
  then have "ds = []" by (metis length_sort length_0_conv)
  then show ?thesis by (simp add: computeStreaks_def spec_longest_def)
next
  case (Cons x xs)
  then have ne: "ds \<noteq> []" by auto
  have "sorted_wrt (<) (x # xs)"
    using assms Cons [symmetric] by (simp add: strict_sorted_iff)
  from longestLoop_spec_runs [OF this, of 0 1]
  show ?thesis
    using ne Cons
    by (simp add: computeStreaks_sorted streaksOfSorted_def spec_longest_def longestBody_first
        split: prod.splits)
qed

text \<open>
  C2: for a set of completed dates (a sequence without repetition, in any order), the
  longest streak is the greatest length of a run of consecutive days in the set: a run of
  that length exists and no run is longer (so it is 0 for the empty set). It is also the
  result of the scan the specification describes: the greatest running length, where the
  running length restarts at 1 at the first date and after a gap of more than one day and
  grows by one otherwise.
\<close>

theorem longest_streak_is_longest_run:
  assumes "distinct ds"
  shows "(\<exists>a. consecutive_run (set ds) a (snd (computeStreaks z now ds))) \<and>
         (\<forall>a k. consecutive_run (set ds) a k \<longrightarrow> k \<le> snd (computeStreaks z now ds)) \<and>
         snd (computeStreaks z now ds) = spec_longest ds"
  using longest_is_max_run [OF assms] longest_eq_spec_longest [OF assms] by simp

theorem longest_streak_is_longest_run_witness:
  "distinct [9, 8, 4, 5, 6, 3 :: int] \<and>
   consecutive_run (set [9, 8, 4, 5, 6, 3]) 6 4 \<and>
   snd (computeStreaks utcZone (newDate 9) [9, 8, 4, 5, 6, 3]) = 4 \<and>
   spec_longest [9, 8, 4, 5, 6, 3] = 4"
proof -
  have d: "distinct [9, 8, 4, 5, 6, 3 :: int]"
    by simp
  have v: "spec_longest [9, 8, 4, 5, 6, 3] = 4"
    by (simp add: spec_longest_def)
  have r: "consecutive_run (set [9, 8, 4, 5, 6, 3]) 6 4"
    by (simp add: consecutive_run_def All_less_Suc2 numeral_nat)
  from longest_streak_is_longest_run [OF d, of utcZone "newDate 9"] d v r show ?thesis
    by simp
qed

section \<open>The current streak\<close>

lemma desc_run_exact:
  "sorted_wrt (>) (a # ys) \<Longrightarrow>
   consecutive_run (set (a # ys)) a (desc_run a (a # ys)) \<and>
   a - int (desc_run a (a # ys)) \<notin> set (a # ys)"
proof (induction ys arbitrary: a)
  case Nil
  show ?case by (simp add: consecutive_run_def)
next
  case (Cons y ys)
  from Cons.prems have ya: "y < a" and below: "\<forall>x\<in>set ys. x < y"
    and srt: "sorted_wrt (>) (y # ys)"
    by auto
  show ?case
  proof (cases "y = a - 1")
    case True
    let ?k = "desc_run (a - 1) ((a - 1) # ys)"
    from Cons.IH [OF srt] True
    have run: "consecutive_run (set ((a - 1) # ys)) (a - 1) ?k"
      and stop: "a - 1 - int ?k \<notin> set ((a - 1) # ys)"
      by simp_all
    have "consecutive_run (set (a # (a - 1) # ys)) (a - 1) ?k"
      using run by (rule consecutive_run_mono) auto
    then have "consecutive_run (set (a # (a - 1) # ys)) (a - 1 + 1) (Suc ?k)"
      by (simp only: consecutive_run_Suc) simp
    moreover have "a - int (Suc ?k) = a - 1 - int ?k"
      by simp
    then have "a - int (Suc ?k) \<notin> set (a # (a - 1) # ys)"
      using stop by (simp only: list.set insert_iff) simp
    ultimately show ?thesis
      using True by simp
  next
    case False
    with ya have "y < a - 1" by simp
    with below have "a - 1 \<notin> set (a # y # ys)" by auto
    with False show ?thesis
      by (simp add: consecutive_run_def)
  qed
qed

lemma strict_desc_hd:
  assumes "sorted_wrt (>) ys" and "(a::int) \<in> set ys" and "\<forall>d\<in>set ys. d \<le> a"
  shows "\<exists>ys'. ys = a # ys'"
proof (cases ys)
  case Nil
  with assms show ?thesis by simp
next
  case (Cons y ys')
  with assms have "y \<le> a" by simp
  moreover from assms Cons have "a = y \<or> a < y" by auto
  ultimately show ?thesis using Cons by auto
qed

lemma strict_desc_rev_sort: "distinct ds \<Longrightarrow> sorted_wrt (>) (rev (sort (ds :: int list)))"
proof -
  assume "distinct ds"
  then have "sorted_wrt (<) (sort ds)"
    by (simp add: strict_sorted_iff)
  then show ?thesis
    by (simp add: sorted_wrt_rev)
qed

text \<open>
  What the current-streak loop computes from a set of dates in a zone of fixed offset
  (where \<open>yesterdayStr\<close> is the day before today): nothing when neither today
  nor yesterday is completed; the run that ends at the anchor when no completed date lies
  after the anchor; and nothing as soon as a completed date lies after the anchor, since
  the loop starts at the latest date and stops at the first mismatch.
\<close>

lemma current_streak_cases:
  fixes ds :: "date list" and now :: instant and z :: zone
  assumes dist: "distinct ds" and fixed: "fixed_offset z"
  defines "S \<equiv> set ds" and "today \<equiv> toISODate now"
  defines "anchor \<equiv> (if today \<in> S then today else today - 1)"
  defines "current \<equiv> fst (computeStreaks z now ds)"
  shows "today \<notin> S \<and> today - 1 \<notin> S \<Longrightarrow> current = 0"
    and "anchor \<in> S \<Longrightarrow> \<forall>d\<in>S. d \<le> anchor \<Longrightarrow>
           consecutive_run S anchor current \<and> anchor - int current \<notin> S"
    and "anchor \<in> S \<Longrightarrow> \<exists>d\<in>S. anchor < d \<Longrightarrow> current = 0"
proof -
  let ?ys = "rev (sort ds)"
  have srt: "sorted_wrt (>) ?ys"
    using dist by (rule strict_desc_rev_sort)
  have set_ys: "set ?ys = S"
    by (simp add: S_def)
  have cur: "current = desc_run anchor ?ys" if "anchor \<in> S"
  proof -
    from that have "ds \<noteq> []" by (auto simp: S_def)
    moreover from that have "today \<in> S \<or> today - 1 \<in> S"
      by (auto simp: anchor_def split: if_splits)
    ultimately have "current = fst (currentLoop z ?ys (0, newDate anchor))"
      unfolding current_def anchor_def today_def S_def
      by (simp add: computeStreaks_sorted streaksOfSorted_def yesterdayStr_fixed [OF fixed])
    then show ?thesis
      by (simp add: currentLoop_fixed [OF fixed])
  qed
  show "current = 0" if "today \<notin> S \<and> today - 1 \<notin> S"
    using that unfolding current_def today_def S_def
    by (simp add: computeStreaks_sorted streaksOfSorted_def yesterdayStr_fixed [OF fixed])
  show "consecutive_run S anchor current \<and> anchor - int current \<notin> S"
    if a: "anchor \<in> S" and top: "\<forall>d\<in>S. d \<le> anchor"
  proof -
    from strict_desc_hd [OF srt] a top set_ys obtain ys' where ys: "?ys = anchor # ys'"
      by auto
    have srt': "sorted_wrt (>) (anchor # ys')"
      using srt unfolding ys .
    have set': "set (anchor # ys') = S"
      using set_ys unfolding ys .
    have c: "current = desc_run anchor (anchor # ys')"
      using cur [OF a] unfolding ys .
    from desc_run_exact [OF srt'] show ?thesis
      unfolding set' c .
  qed
  show "current = 0" if a: "anchor \<in> S" and later: "\<exists>d\<in>S. anchor < d"
  proof -
    from later obtain d where d: "d \<in> S" "anchor < d" by blast
    from d set_ys obtain y ys' where ys: "?ys = y # ys'"
      by (cases ?ys) auto
    have "d \<le> y"
    proof (cases "d = y")
      case True
      then show ?thesis by simp
    next
      case False
      with d set_ys ys have "d \<in> set ys'" by auto
      with srt ys show ?thesis by auto
    qed
    with d have "y \<noteq> anchor" by simp
    with ys cur [OF a] show ?thesis by simp
  qed
qed

text \<open>
  C1: the current streak is meant to be the run of consecutive completed days that ends
  at the anchor (today, or yesterday when today is not completed), whatever dates lie after
  the anchor. With the clock on day 10 and the completed dates 10 and 11 the anchor is day
  10 and the run that ends there has length 1, as the computation finds for the single
  date 10; with the date 11 present as well the computed current streak is 0, in every
  time zone.
\<close>

theorem current_streak_later_date:
  "computeStreaks z (newDate 10) [10] = (1, 1) \<and>
   computeStreaks z (newDate 10) [11, 10] = (0, 2)"
  by (simp add: computeStreaks_def longestBody_def toISODate_def newDate_def MS_PER_DAY_def
      Let_def)

section \<open>The requests on the store\<close>

lemma single_eq_Some: "single rows = Some r \<longleftrightarrow> rows = [r]"
  by (cases rows; cases "tl rows") (auto simp: single_def split: list.splits)

lemma fold_max_ge: "(m::nat) \<le> fold max xs m"
proof (induction xs arbitrary: m)
  case Nil
  show ?case by simp
next
  case (Cons x xs)
  have "m \<le> max x m" by simp
  also have "\<dots> \<le> fold max xs (max x m)" by (rule Cons.IH)
  finally show ?case by simp
qed

lemma fold_max_ge_elem: "x \<in> set xs \<Longrightarrow> (x::nat) \<le> fold max xs m"
proof (induction xs arbitrary: m)
  case Nil
  then show ?case by simp
next
  case (Cons y ys)
  show ?case
  proof (cases "x = y")
    case True
    have "x \<le> max y m" using True by simp
    also have "\<dots> \<le> fold max ys (max y m)" by (rule fold_max_ge)
    finally show ?thesis by simp
  next
    case False
    with Cons.prems have "x \<in> set ys" by simp
    then show ?thesis using Cons.IH by simp
  qed
qed

lemma fresh_id_fresh: "c \<in> set rows \<Longrightarrow> id_c c \<noteq> fresh_id rows"
proof -
  assume "c \<in> set rows"
  then have "id_c c \<in> set (map id_c rows)" by simp
  then have "id_c c \<le> fold max (map id_c rows) 0" by (rule fold_max_ge_elem)
  then show ?thesis by (simp add: fresh_id_def)
qed

lemma filter_map_commute:
  "(\<And>x. P (f x) = P x) \<Longrightarrow> filter P (map f xs) = map f (filter P xs)"
  by (induction xs) simp_all

lemma id_c_setCompleted [simp]: "id_c (setCompleted k f c) = id_c c"
  and habit_id_setCompleted [simp]: "habit_id (setCompleted k f c) = habit_id c"
  and date_setCompleted [simp]: "completion_date (setCompleted k f c) = completion_date c"
  by (simp_all add: setCompleted_def)


lemma id_h_setStreaks [simp]: "id_h (setStreaks k r h) = id_h h"
  by (simp add: setStreaks_def)

lemma setStreaks_idem [simp]: "setStreaks k r (setStreaks k r h) = setStreaks k r h"
  by (simp add: setStreaks_def)

lemma setStreaks_fields:
  "id_h h = k \<Longrightarrow> (current_streak (setStreaks k r h), longest_streak (setStreaks k r h)) = r"
  by (simp add: setStreaks_def)

lemma updateCompletion_eq:
  "updateCompletion s rowId flag =
     (case outage s of
        Some msg \<Rightarrow> Inl msg
      | None \<Rightarrow>
          (case single (map (setCompleted rowId flag)
                  (filter (\<lambda>c. id_c c = rowId) (habit_completions s))) of
             None \<Rightarrow> Inl ''JSON object requested, multiple (or no) rows returned''
           | Some data \<Rightarrow>
               Inr (s\<lparr>habit_completions := map (setCompleted rowId flag) (habit_completions s)\<rparr>,
                    data)))"
proof -
  have m: "map (\<lambda>c. if id_c c = rowId then c\<lparr>completed := flag\<rparr> else c) rows =
      map (setCompleted rowId flag) rows" for rows
    by (simp add: setCompleted_def)
  have "filter (\<lambda>c. id_c c = rowId) (map (setCompleted rowId flag) rows) =
      map (setCompleted rowId flag) (filter (\<lambda>c. id_c c = rowId) rows)" for rows
    by (rule filter_map_commute) simp
  then show ?thesis
    by (cases "outage s") (simp_all add: updateCompletion_def m Let_def)
qed

lemma persistStreaks_eq:
  "persistStreaks s habitId c l =
     (case outage s of
        Some msg \<Rightarrow> Inl msg
      | None \<Rightarrow> Inr (s\<lparr>habits := map (setStreaks habitId (c, l)) (habits s)\<rparr>))"
proof -
  have "(\<lambda>h. if id_h h = habitId then h\<lparr>current_streak := c, longest_streak := l\<rparr> else h) =
      setStreaks habitId (c, l)"
    by (simp add: setStreaks_def fun_eq_iff)
  then show ?thesis
    by (cases "outage s") (simp_all add: persistStreaks_def)
qed

lemma mset_order_rows: "mset (order_rows column ascending rows) = mset rows"
  by (simp add: order_rows_def)

lemma set_order_rows: "set (order_rows column ascending rows) = set rows"
  by (simp add: order_rows_def)

lemma updateHabitStreaks_eq:
  "updateHabitStreaks z s habitId now =
     (case outage s of
        Some msg \<Rightarrow>
          Inl (Error (''Failed to fetch completions for streak calculation: '' @ msg))
      | None \<Rightarrow>
          Inr (s\<lparr>habits := map (setStreaks habitId (computeStreaks z now (completedDates s habitId)))
                              (habits s)\<rparr>,
               computeStreaks z now (completedDates s habitId)))"
proof (cases "outage s")
  case (Some msg)
  then show ?thesis
    by (simp add: updateHabitStreaks_def fetchCompleted_def)
next
  case None
  let ?rows = "filter (\<lambda>c. habit_id c = habitId \<and> completed c = True) (habit_completions s)"
  have "mset (map completion_date (order_rows completion_date False ?rows)) =
      mset (completedDates s habitId)"
    by (simp add: completedDates_def mset_order_rows)
  then have "computeStreaks z now (map completion_date (order_rows completion_date False ?rows)) =
      computeStreaks z now (completedDates s habitId)"
    by (rule computeStreaks_mset)
  with None show ?thesis
    by (simp add: updateHabitStreaks_def fetchCompleted_def persistStreaks_eq split: prod.splits)
qed

section \<open>toggleHabitCompletion\<close>

lemma insertCompletion_Inr:
  assumes "insertCompletion s habitId userId d flag = Inr (s1, r)"
  shows "outage s = None"
    and "recordsFor s habitId d = []"
    and "r = \<lparr>id_c = fresh_id (habit_completions s), habit_id = habitId, user_id = userId,
               completion_date = d, completed = flag\<rparr>"
    and "s1 = s\<lparr>habit_completions := habit_completions s @ [r]\<rparr>"
proof -
  show out: "outage s = None"
    using assms by (cases "outage s") (simp_all add: insertCompletion_def)
  from assms out
  have nomatch: "(habitId, d) \<notin> (\<lambda>c. (habit_id c, completion_date c)) ` set (habit_completions s)"
    by (simp add: insertCompletion_def split: if_splits)
  have "\<not> (habit_id c = habitId \<and> completion_date c = d)" if "c \<in> set (habit_completions s)" for c
    using nomatch that by force
  then show "recordsFor s habitId d = []"
    by (simp add: recordsFor_def filter_empty_conv)
  from assms out
  show "r = \<lparr>id_c = fresh_id (habit_completions s), habit_id = habitId, user_id = userId,
               completion_date = d, completed = flag\<rparr>"
    by (simp add: insertCompletion_def Let_def split: if_splits)
  from assms out
  show "s1 = s\<lparr>habit_completions := habit_completions s @ [r]\<rparr>"
    by (auto simp: insertCompletion_def Let_def split: if_splits)
qed

lemma updateCompletion_Inr:
  assumes "updateCompletion s rowId flag = Inr (s1, r)"
  shows "outage s = None"
    and "\<exists>e. filter (\<lambda>c. id_c c = rowId) (habit_completions s) = [e] \<and> r = setCompleted rowId flag e"
    and "s1 = s\<lparr>habit_completions := map (setCompleted rowId flag) (habit_completions s)\<rparr>"
proof -
  show out: "outage s = None"
    using assms by (cases "outage s") (simp_all add: updateCompletion_eq)
  let ?sel = "filter (\<lambda>c. id_c c = rowId) (habit_completions s)"
  from assms out have sg: "single (map (setCompleted rowId flag) ?sel) = Some r"
    by (simp add: updateCompletion_eq split: option.splits)
  then have "map (setCompleted rowId flag) ?sel = [r]"
    by (simp only: single_eq_Some)
  then show "\<exists>e. ?sel = [e] \<and> r = setCompleted rowId flag e"
    by (cases ?sel) auto
  from assms out sg
  show "s1 = s\<lparr>habit_completions := map (setCompleted rowId flag) (habit_completions s)\<rparr>"
    by (simp add: updateCompletion_eq)
qed

lemma lookupCompletion_Some:
  "lookupCompletion s habitId d = Some e \<longleftrightarrow> outage s = None \<and> recordsFor s habitId d = [e]"
  by (cases "outage s") (simp_all add: lookupCompletion_def recordsFor_def single_eq_Some)

lemma recordsFor_setCompleted:
  "recordsFor (s\<lparr>habit_completions := map (setCompleted k f) (habit_completions s)\<rparr>) habitId d =
     map (setCompleted k f) (recordsFor s habitId d)"
proof -
  have "filter (\<lambda>c. habit_id c = habitId \<and> completion_date c = d) (map (setCompleted k f) rows) =
      map (setCompleted k f) (filter (\<lambda>c. habit_id c = habitId \<and> completion_date c = d) rows)"
    for rows
    by (rule filter_map_commute) simp
  then show ?thesis
    by (simp add: recordsFor_def)
qed

lemma by_id_setCompleted:
  "filter (\<lambda>c. id_c c = j) (map (setCompleted k f) rows) =
     map (setCompleted k f) (filter (\<lambda>c. id_c c = j) rows)"
  by (rule filter_map_commute) simp

text \<open>The state of the store and the row after the upsert of a toggle.\<close>

lemma upsert_cases:
  assumes "toggleHabitCompletion z s habitId userId (Some t) flag now = Inr (s2, r)"
  obtains s1 where
    "outage s1 = None" and "habits s1 = habits s"
    and "recordsFor s1 habitId (toISODate t) = [r]"
    and "filter (\<lambda>c. id_c c = id_c r) (habit_completions s1) = [r]"
    and "completed r = flag"
    and "updateHabitStreaks z s1 habitId now = Inr (s2, computeStreaks z now (completedDates s1 habitId))"
proof (cases "lookupCompletion s habitId (toISODate t)")
  case None
  with assms obtain s1 st where
    ins: "insertCompletion s habitId userId (toISODate t) flag = Inr (s1, r)"
    and upd: "updateHabitStreaks z s1 habitId now = Inr (s2, st)"
    by (auto simp: toggleHabitCompletion_def Let_def split: sum.splits prod.splits)
  note facts = insertCompletion_Inr [OF ins]
  let ?rows = "habit_completions s"
  have fresh: "filter (\<lambda>c. id_c c = id_c r) ?rows = []"
    using fresh_id_fresh [of _ ?rows] by (simp add: facts(3) filter_empty_conv)
  have rec: "filter (\<lambda>c. habit_id c = habitId \<and> completion_date c = toISODate t) ?rows = []"
    using facts(2) by (simp add: recordsFor_def)
  have r_fields: "habit_id r = habitId" "completion_date r = toISODate t" "completed r = flag"
    by (simp_all add: facts(3))
  have 1: "outage s1 = None" "habits s1 = habits s"
    by (simp_all add: facts(4) facts(1))
  have 2: "recordsFor s1 habitId (toISODate t) = [r]"
    using rec r_fields by (simp add: recordsFor_def facts(4))
  have 3: "filter (\<lambda>c. id_c c = id_c r) (habit_completions s1) = [r]"
    using fresh by (simp add: facts(4))
  from upd 1 have 4:
    "updateHabitStreaks z s1 habitId now = Inr (s2, computeStreaks z now (completedDates s1 habitId))"
    by (auto simp: updateHabitStreaks_eq)
  from 1 2 3 r_fields(3) 4 show ?thesis
    by (rule that)
next
  case (Some e)
  with assms obtain s1 st where
    up: "updateCompletion s (id_c e) flag = Inr (s1, r)"
    and upd: "updateHabitStreaks z s1 habitId now = Inr (s2, st)"
    by (auto simp: toggleHabitCompletion_def Let_def split: sum.splits prod.splits)
  note facts = updateCompletion_Inr [OF up]
  from Some have found: "recordsFor s habitId (toISODate t) = [e]"
    by (simp add: lookupCompletion_Some)
  then have "e \<in> set (recordsFor s habitId (toISODate t))"
    by simp
  then have e_in: "e \<in> set (filter (\<lambda>c. id_c c = id_c e) (habit_completions s))"
    by (simp add: recordsFor_def)
  from facts(2) obtain e' where
    sel: "filter (\<lambda>c. id_c c = id_c e) (habit_completions s) = [e']"
    and r_eq: "r = setCompleted (id_c e) flag e'"
    by blast
  from e_in sel have "e' = e" by simp
  with sel r_eq have sel_e: "filter (\<lambda>c. id_c c = id_c e) (habit_completions s) = [e]"
    and r_e: "r = setCompleted (id_c e) flag e"
    by simp_all
  have id_r: "id_c r = id_c e"
    by (simp add: r_e)
  have 1: "outage s1 = None" "habits s1 = habits s"
    by (simp_all add: facts(3) facts(1))
  have 2: "recordsFor s1 habitId (toISODate t) = [r]"
    by (simp only: facts(3) recordsFor_setCompleted found r_e list.map)
  have 3: "filter (\<lambda>c. id_c c = id_c r) (habit_completions s1) = [r]"
    by (simp add: facts(3) id_r by_id_setCompleted sel_e r_e)
  have 5: "completed r = flag"
    by (simp add: r_e setCompleted_def)
  from upd 1 have 4:
    "updateHabitStreaks z s1 habitId now = Inr (s2, computeStreaks z now (completedDates s1 habitId))"
    by (auto simp: updateHabitStreaks_eq)
  from 1 2 3 5 4 show ?thesis
    by (rule that)
qed

lemma toggle_success:
  assumes "toggleHabitCompletion z s habitId userId (Some t) flag now = Inr (s2, r)"
  shows "outage s2 = None"
    and "recordsFor s2 habitId (toISODate t) = [r]"
    and "filter (\<lambda>c. id_c c = id_c r) (habit_completions s2) = [r]"
    and "completed r = flag"
    and "habits s2 =
           map (setStreaks habitId (computeStreaks z now (completedDates s2 habitId))) (habits s)"
proof -
  from assms obtain s1 where
    1: "outage s1 = None" and 2: "habits s1 = habits s"
    and 3: "recordsFor s1 habitId (toISODate t) = [r]"
    and 4: "filter (\<lambda>c. id_c c = id_c r) (habit_completions s1) = [r]"
    and 5: "completed r = flag"
    and 6: "updateHabitStreaks z s1 habitId now =
              Inr (s2, computeStreaks z now (completedDates s1 habitId))"
    by (rule upsert_cases)
  from 6 1 have s2: "s2 = s1\<lparr>habits :=
      map (setStreaks habitId (computeStreaks z now (completedDates s1 habitId))) (habits s1)\<rparr>"
    by (simp add: updateHabitStreaks_eq)
  have same: "completedDates s2 habitId = completedDates s1 habitId"
    by (simp add: s2 completedDates_def)
  show "outage s2 = None" by (simp add: s2 1)
  show "recordsFor s2 habitId (toISODate t) = [r]"
    using 3 by (simp add: s2 recordsFor_def)
  show "filter (\<lambda>c. id_c c = id_c r) (habit_completions s2) = [r]"
    using 4 by (simp add: s2)
  show "completed r = flag" by (rule 5)
  show "habits s2 =
      map (setStreaks habitId (computeStreaks z now (completedDates s2 habitId))) (habits s)"
    by (simp only: same) (simp add: s2 2)
qed


lemmas toggle_defs =
  toggleHabitCompletion_def lookupCompletion_def insertCompletion_def updateCompletion_def
  updateHabitStreaks_eq completedDates_def computeStreaks_def longestBody_def single_def
  fresh_id_def setStreaks_def Let_def toISODate_def newDate_def MS_PER_DAY_def

lemmas example_store_defs =
  example_db_def example_db'_def example_db_later_def example_habit_def example_row_def
  later_row_def early_row_def



text \<open>
  The write of a toggle: after every call of \<open>toggleHabitCompletion\<close> that returns, the two
  fields stored for the habit are the two values of \<open>computeStreaks\<close> on all completed dates
  of the habit in the store, at the clock of the call; they do not depend on the values
  stored before.
\<close>

lemma toggle_stores_computeStreaks:
  assumes "toggleHabitCompletion z s habitId userId date flag now = Inr (s', r)"
  shows "\<forall>h\<in>set (habits s'). id_h h = habitId \<longrightarrow>
           (current_streak h, longest_streak h) =
             computeStreaks z now (completedDates s' habitId)"
proof -
  from assms obtain t where date: "date = Some t"
    by (cases date) (simp_all add: toggleHabitCompletion_def)
  let ?r = "computeStreaks z now (completedDates s' habitId)"
  from assms have hs: "habits s' = map (setStreaks habitId ?r) (habits s)"
    unfolding date by (rule toggle_success(5))
  show ?thesis
  proof (intro ballI impI)
    fix h
    assume "h \<in> set (habits s')" and id: "id_h h = habitId"
    with hs obtain h0 where h: "h = setStreaks habitId ?r h0"
      by auto
    with id have "id_h h0 = habitId"
      by simp
    then show "(current_streak h, longest_streak h) = ?r"
      unfolding h by (rule setStreaks_fields)
  qed
qed

text \<open>
  C3: after a toggle the stored \<open>current_streak\<close> and \<open>longest_streak\<close> should be the
  current and the longest streak, as the specification defines them, of all completed
  dates of the habit. On the store that holds the habit with the completed day 10, with
  the clock on day 10, the toggle of day 11 returns and leaves the completed dates 10 and
  11; their current streak on day 10 in the words of the specification is 1 (the run that
  ends today) and their longest streak is 2, but the toggle stores the current streak 0
  (and the longest streak 2).
\<close>

theorem toggle_stores_zero_for_later_date:
  "toggleHabitCompletion utcZone example_db' 1 7 (Some (newDate 11)) True (newDate 10 + 7200000) =
     Inr (example_db_later, later_row) \<and>
   habits example_db_later = [example_habit\<lparr>current_streak := 0, longest_streak := 2\<rparr>] \<and>
   completedDates example_db_later 1 = [10, 11] \<and>
   toISODate (newDate 10 + 7200000) = 10 \<and>
   spec_current 10 [10, 11] = 1 \<and>
   spec_longest [10, 11] = 2"
  by (simp add: toggle_defs example_store_defs spec_current_def spec_longest_def)






section \<open>getUserHabits\<close>

lemma foldl_groupStep:
  "(case foldl groupStep m cs k of None \<Rightarrow> [] | Some xs \<Rightarrow> xs) =
     (case m k of None \<Rightarrow> [] | Some xs \<Rightarrow> xs) @ filter (\<lambda>c. habit_id c = k) cs"
proof (induction cs arbitrary: m)
  case Nil
  show ?case by simp
next
  case (Cons c cs)
  have "(case groupStep m c k of None \<Rightarrow> [] | Some xs \<Rightarrow> xs) =
      (case m k of None \<Rightarrow> [] | Some xs \<Rightarrow> xs) @ (if habit_id c = k then [c] else [])"
    by (simp add: groupStep_def split: option.splits)
  with Cons.IH [of "groupStep m c"] show ?case
    by simp
qed

lemma completionsByHabit_eq:
  "(case foldl groupStep Map.empty cs k of None \<Rightarrow> [] | Some xs \<Rightarrow> xs) =
     filter (\<lambda>c. habit_id c = k) cs"
  using foldl_groupStep [of Map.empty cs k] by simp

lemma fetchHabits_completed_today [simp]:
  "fetchHabits s userId (opts\<lparr>filter_completed_today := x\<rparr>) = fetchHabits s userId opts"
  by (cases "outage s") (simp_all add: fetchHabits_def Let_def)

lemma fetchHabits_online: "outage s = None \<Longrightarrow> \<exists>hs. fetchHabits s userId opts = Inr hs"
  by (simp add: fetchHabits_def Let_def)

lemma fetchHabits_default:
  "sortBy opts \<noteq> ''title'' \<Longrightarrow> sortBy opts \<noteq> ''current_streak'' \<Longrightarrow>
   fetchHabits s userId (opts\<lparr>sortBy := ''created_at''\<rparr>) = fetchHabits s userId opts"
  by (cases "outage s") (simp_all add: fetchHabits_def Let_def)

text \<open>The list of habits with their windows, before the completion-based filter.\<close>

lemma getUserHabits_eq:
  assumes "fetchHabits s userId opts = Inr hs"
  shows "getUserHabits z s userId opts now =
     (if hs = [] then Inr []
      else case TimeClip (setDateBack z now (days opts - 1)) of
             None \<Rightarrow> Inl RangeError
           | Some start \<Rightarrow>
               (case fetchRecent s userId (toISODate (setDateBack z now (days opts - 1)))
                       (toISODate now) of
                  Inl msg \<Rightarrow> Inl (Error (''Failed to fetch completions: '' @ msg))
                | Inr completions \<Rightarrow>
                    Inr ((case filter_completed_today opts of
                            None \<Rightarrow> (\<lambda>x. x)
                          | Some flag \<Rightarrow> filter (completedTodayPred flag (toISODate now)))
                           (map (\<lambda>h. \<lparr>habit_fields = h,
                                       recent_completions =
                                         filter (\<lambda>c. habit_id c = id_h h) completions\<rparr>) hs))))"
proof (cases "TimeClip (setDateBack z now (days opts - 1))")
  case None
  with assms show ?thesis
    by (simp add: getUserHabits_def Let_def)
next
  case (Some start)
  then have "start = setDateBack z now (days opts - 1)"
    by (simp add: TimeClip_def split: if_splits)
  with assms Some show ?thesis
    by (simp add: getUserHabits_def Let_def completionsByHabit_eq
        split: sum.splits option.splits)
qed

lemma fetchRecent_online:
  "outage s = None \<Longrightarrow>
   fetchRecent s userId a b =
     Inr (order_rows completion_date False
            (filter (\<lambda>c. user_id c = userId \<and> a \<le> completion_date c \<and> completion_date c \<le> b)
               (habit_completions s)))"
  by (simp add: fetchRecent_def)

lemma fetchHabits_Inr_online: "fetchHabits s userId opts = Inr hs \<Longrightarrow> outage s = None"
  by (cases "outage s") (simp_all add: fetchHabits_def)

subsection \<open>The completed-today filter\<close>

lemma find_unique_date:
  "distinct (map completion_date cs) \<Longrightarrow>
   (case find (\<lambda>c. completion_date c = d) cs of None \<Rightarrow> False | Some c \<Rightarrow> completed c) \<longleftrightarrow>
   (\<exists>c\<in>set cs. completion_date c = d \<and> completed c)"
proof (induction cs)
  case Nil
  show ?case by simp
next
  case (Cons c cs)
  show ?case
  proof (cases "completion_date c = d")
    case True
    from Cons.prems have "completion_date c \<notin> completion_date ` set cs"
      by simp
    with True have "\<forall>c'\<in>set cs. completion_date c' \<noteq> d"
      by blast
    with True show ?thesis
      by auto
  next
    case False
    with Cons show ?thesis
      by simp
  qed
qed

lemma completedTodayPred_eq:
  "distinct (map completion_date (recent_completions h)) \<Longrightarrow>
   completedTodayPred flag day h \<longleftrightarrow> (completedOn day h = flag)"
  using find_unique_date [of "recent_completions h" day]
  by (auto simp: completedTodayPred_def completedOn_def Let_def)

lemma distinct_map_mset:
  "mset ys = mset xs \<Longrightarrow> distinct (map f xs) \<Longrightarrow> distinct (map f ys)"
proof -
  assume "mset ys = mset xs" and d: "distinct (map f xs)"
  then have "mset (map f ys) = mset (map f xs)"
    by simp
  then show ?thesis
    using d by (metis mset_eq_imp_distinct_iff)
qed

lemma distinct_dates_of_habit:
  assumes "distinct (map (\<lambda>c. (habit_id c, completion_date c)) cs)"
  shows "distinct (map completion_date (filter (\<lambda>c. habit_id c = k) cs))"
proof -
  let ?sel = "filter (\<lambda>c. habit_id c = k) cs"
  have d: "distinct (map (\<lambda>c. (habit_id c, completion_date c)) ?sel)"
    using assms by (rule distinct_map_filter)
  have "map (\<lambda>c. (habit_id c, completion_date c)) ?sel =
      map (\<lambda>d. (k, d)) (map completion_date ?sel)"
    by (induction cs) simp_all
  with d have "distinct (map (\<lambda>d. (k, d)) (map completion_date ?sel))"
    by simp
  then show ?thesis
    by (simp only: distinct_map [of "\<lambda>d. (k, d)"])
qed

lemma window_distinct:
  assumes "unique_completions s"
  shows "distinct (map (\<lambda>c. (habit_id c, completion_date c))
           (order_rows completion_date False (filter P (habit_completions s))))"
proof -
  have "distinct (map (\<lambda>c. (habit_id c, completion_date c)) (filter P (habit_completions s)))"
    using assms unfolding unique_completions_def by (rule distinct_map_filter)
  then show ?thesis
    by (rule distinct_map_mset [OF mset_order_rows])
qed

text \<open>
  C7 (completed-today filter): when \<open>UNIQUE(habit_id, completion_date)\<close> holds in the
  store, in every time zone a call with the filter \<open>completed_today = flag\<close> returns, of the habits that the
  same call without this filter returns (each with its bounded window of recent
  completions), exactly those for which "the window holds a record of today's date with
  \<open>completed = true\<close>" has the truth value \<open>flag\<close>; a habit without such a record counts as
  not completed today.
\<close>

theorem completed_today_filter:
  assumes uniq: "unique_completions s"
    and unfiltered:
      "getUserHabits z s userId (opts\<lparr>filter_completed_today := None\<rparr>) now = Inr hs"
  shows "getUserHabits z s userId (opts\<lparr>filter_completed_today := Some flag\<rparr>) now =
           Inr (filter (\<lambda>h. completedOn (toISODate now) h = flag) hs)"
proof -
  from unfiltered obtain hs0 where f: "fetchHabits s userId opts = Inr hs0"
    by (cases "fetchHabits s userId opts") (simp_all add: getUserHabits_def)
  then have out: "outage s = None"
    by (rule fetchHabits_Inr_online)
  let ?window = "order_rows completion_date False
      (filter (\<lambda>c. user_id c = userId
                 \<and> toISODate (setDateBack z now (days opts - 1)) \<le> completion_date c
                 \<and> completion_date c \<le> toISODate now) (habit_completions s))"
  let ?view = "map (\<lambda>h. \<lparr>habit_fields = h,
      recent_completions = filter (\<lambda>c. habit_id c = id_h h) ?window\<rparr>) hs0"
  show ?thesis
  proof (cases "hs0 = []")
    case True
    with f unfiltered have "hs = []"
      by (simp add: getUserHabits_eq [of s userId _ hs0 z])
    with f True show ?thesis
      by (simp add: getUserHabits_eq [of s userId _ hs0 z])
  next
    case False
    with f unfiltered obtain start where
      clip: "TimeClip (setDateBack z now (days opts - 1)) = Some start"
      by (cases "TimeClip (setDateBack z now (days opts - 1))")
        (simp_all add: getUserHabits_eq [of s userId _ hs0 z])
    with False f unfiltered out have hs: "hs = ?view"
      by (simp add: getUserHabits_eq [of s userId _ hs0 z] fetchRecent_online)
    have "completedTodayPred flag (toISODate now) h \<longleftrightarrow> (completedOn (toISODate now) h = flag)"
      if "h \<in> set ?view" for h
    proof -
      from that obtain h0 :: habit where
        "recent_completions h = filter (\<lambda>c. habit_id c = id_h h0) ?window"
        by auto
      then have "distinct (map completion_date (recent_completions h))"
        using distinct_dates_of_habit [OF window_distinct [OF uniq]] by simp
      then show ?thesis
        by (rule completedTodayPred_eq)
    qed
    then have "filter (completedTodayPred flag (toISODate now)) ?view =
        filter (\<lambda>h. completedOn (toISODate now) h = flag) ?view"
      by (intro filter_cong refl) blast
    with f False out clip show ?thesis
      by (simp add: getUserHabits_eq [of s userId _ hs0 z] fetchRecent_online hs)
  qed
qed

lemmas example_defs =
  getUserHabits_def fetchHabits_def fetchRecent_def order_rows_def groupStep_def TimeClip_def
  completedTodayPred_def Let_def example_db'_def example_habit_def example_row_def
  example_options_def toISODate_def newDate_def MS_PER_DAY_def

lemma example_unfiltered:
  "getUserHabits utcZone example_db' 7 (example_options\<lparr>filter_completed_today := None\<rparr>)
     (newDate 10 + 7200000) =
   Inr [\<lparr>habit_fields = example_habit\<lparr>current_streak := 1, longest_streak := 1\<rparr>,
         recent_completions = [example_row]\<rparr>]"
  by (simp add: example_defs)

theorem completed_today_filter_witness:
  "unique_completions example_db' \<and>
   getUserHabits utcZone example_db' 7 (example_options\<lparr>filter_completed_today := None\<rparr>)
     (newDate 10 + 7200000) =
     Inr [\<lparr>habit_fields = example_habit\<lparr>current_streak := 1, longest_streak := 1\<rparr>,
           recent_completions = [example_row]\<rparr>] \<and>
   getUserHabits utcZone example_db' 7 (example_options\<lparr>filter_completed_today := Some True\<rparr>)
     (newDate 10 + 7200000) =
     Inr [\<lparr>habit_fields = example_habit\<lparr>current_streak := 1, longest_streak := 1\<rparr>,
           recent_completions = [example_row]\<rparr>]"
proof -
  have u: "unique_completions example_db'"
    by (simp add: unique_completions_def example_db'_def)
  from completed_today_filter [OF u example_unfiltered, of True] u example_unfiltered
  show ?thesis
    by (simp add: completedOn_def example_row_def toISODate_def newDate_def MS_PER_DAY_def)
qed

subsection \<open>No validation of the sort key and of the window size\<close>

lemma getUserHabits_sortBy_default:
  assumes "sortBy opts \<noteq> ''title''" and "sortBy opts \<noteq> ''current_streak''"
  shows "getUserHabits z s userId (opts\<lparr>sortBy := ''created_at''\<rparr>) now =
           getUserHabits z s userId opts now"
  by (cases "fetchHabits s userId opts")
    (simp_all add: getUserHabits_def fetchHabits_default [OF assms] Let_def
      split: sum.splits option.splits)

lemma empty_window:
  assumes "today < start"
  shows "filter (\<lambda>c. user_id c = userId \<and> start \<le> completion_date c
                   \<and> completion_date c \<le> today) rows = []"
  using assms by (simp add: filter_empty_conv)

lemma window_start_after_today:
  assumes "days opts < 0 \<or> fixed_offset z \<and> days opts \<le> 0"
  shows "toISODate now < toISODate (setDateBack z now (days opts - 1))"
proof (cases "days opts < 0")
  case True
  then show ?thesis
    by (intro setDateBack_future) simp
next
  case False
  with assms have "fixed_offset z" and "days opts \<le> 0"
    by simp_all
  then show ?thesis
    by (simp add: setDateBack_fixed toISODate_days_back)
qed

text \<open>
  C8, as the code has it: \<open>getUserHabits\<close> validates neither the sort key nor the window
  size. While the store answers its requests and the start of the window is a date that a
  \<open>Date\<close> can hold, every call returns a list of habits; a sort key other than \<open>title\<close>
  and \<open>current_streak\<close> (an unknown key included) gives the result of the key
  \<open>created_at\<close>; and with a negative window size, or one of zero or less in a zone of
  fixed offset such as UTC, every returned habit has an empty list of recent completions.
\<close>

theorem getUserHabits_no_validation:
  assumes out: "outage s = None"
    and rep: "\<bar>setDateBack z now (days opts - 1)\<bar> \<le> 8640000000000000"
  shows "(\<exists>hs. getUserHabits z s userId opts now = Inr hs) \<and>
         (sortBy opts \<notin> {''title'', ''current_streak''} \<longrightarrow>
            getUserHabits z s userId opts now =
              getUserHabits z s userId (opts\<lparr>sortBy := ''created_at''\<rparr>) now) \<and>
         (days opts < 0 \<or> fixed_offset z \<and> days opts \<le> 0 \<longrightarrow>
            (\<forall>hs. getUserHabits z s userId opts now = Inr hs \<longrightarrow>
               (\<forall>h\<in>set hs. recent_completions h = [])))"
proof (intro conjI impI allI)
  from fetchHabits_online [OF out] obtain hs0 where f: "fetchHabits s userId opts = Inr hs0"
    by blast
  have clip: "TimeClip (setDateBack z now (days opts - 1)) =
      Some (setDateBack z now (days opts - 1))"
    using rep by (simp add: TimeClip_def)
  show "\<exists>hs. getUserHabits z s userId opts now = Inr hs"
    by (simp add: getUserHabits_eq [OF f] fetchRecent_online [OF out] clip)
  show "getUserHabits z s userId opts now =
      getUserHabits z s userId (opts\<lparr>sortBy := ''created_at''\<rparr>) now"
    if "sortBy opts \<notin> {''title'', ''current_streak''}"
    using that by (simp add: getUserHabits_sortBy_default)
  show "\<forall>h\<in>set hs. recent_completions h = []"
    if neg: "days opts < 0 \<or> fixed_offset z \<and> days opts \<le> 0"
      and res: "getUserHabits z s userId opts now = Inr hs" for hs
  proof (cases "hs0 = []")
    case True
    with res show ?thesis
      by (simp add: getUserHabits_eq [OF f])
  next
    case False
    note empty = empty_window [OF window_start_after_today [OF neg]]
    from False res
    have "set hs \<subseteq> set (map (\<lambda>h. \<lparr>habit_fields = h, recent_completions = []\<rparr>) hs0)"
      by (auto simp: getUserHabits_eq [OF f] fetchRecent_online [OF out] empty
          order_rows_def clip split: option.splits)
    then show ?thesis
      by auto
  qed
qed

theorem getUserHabits_no_validation_witness:
  "outage example_db' = None \<and>
   \<bar>setDateBack utcZone (newDate 10 + 7200000) (- 1 - 1)\<bar> \<le> 8640000000000000 \<and>
   getUserHabits utcZone example_db' 7 (example_options\<lparr>sortBy := ''name'', days := - 1\<rparr>)
     (newDate 10 + 7200000) =
     Inr [\<lparr>habit_fields = example_habit\<lparr>current_streak := 1, longest_streak := 1\<rparr>,
           recent_completions = []\<rparr>] \<and>
   getUserHabits utcZone example_db' 7 (example_options\<lparr>sortBy := ''created_at'', days := - 1\<rparr>)
     (newDate 10 + 7200000) =
     Inr [\<lparr>habit_fields = example_habit\<lparr>current_streak := 1, longest_streak := 1\<rparr>,
           recent_completions = []\<rparr>]"
proof -
  have o: "outage example_db' = None"
    by (simp add: example_db'_def)
  have r: "\<bar>setDateBack utcZone (newDate 10 + 7200000)
      (days (example_options\<lparr>sortBy := ''name'', days := - 1\<rparr>) - 1)\<bar>
      \<le> 8640000000000000"
    by (simp add: newDate_def MS_PER_DAY_def)
  from getUserHabits_no_validation [OF o r, of 7] o r
  show ?thesis
    by (simp add: example_defs)
qed

text \<open>
  C8, as stated, fails: a call with the unknown sort key \<open>bogus\<close> and the negative window
  size \<open>- 3\<close> is not rejected; it returns the user's habit, with an empty window.
\<close>

theorem getUserHabits_accepts_unknown_key_and_negative_days:
  "getUserHabits utcZone example_db' 7 (example_options\<lparr>sortBy := ''bogus'', days := - 3\<rparr>)
     (newDate 10 + 7200000) =
   Inr [\<lparr>habit_fields = example_habit\<lparr>current_streak := 1, longest_streak := 1\<rparr>,
         recent_completions = []\<rparr>]"
  by (simp add: example_defs)

end
